theory Spec2Isabelle
  imports Main
begin

section \<open>JavaScript values and \<open>JSON.stringify\<close>\<close>

text \<open>
  The history hook of \<open>App.tsx\<close> is generic in the type \<open>T\<close> of the document and
  compares documents through \<open>JSON.stringify\<close>, so the values a document may hold are
  modelled first.  An object is the list of its own enumerable properties in property
  order, an array the list of its elements.  \<open>JNum n\<close> is the number whose value is the
  integer \<open>n\<close> (the numeric fields of the design document are pixel and column
  counts); it stands for a number of JavaScript when \<open>n\<close> is at most \<open>2^53\<close> in size,
  the range in which every integer is a number and is printed with all its digits.
  \<open>NaN\<close> and the two infinities (\<open>JInfinity True\<close> the positive one) are values of
  their own.  Strings are lists of code units below 256.
\<close>

datatype jsval =
    JUndefined
  | JNull
  | JBool bool
  | JNum int
  | JNaN
  | JInfinity bool
  | JStr string
  | JArr "jsval list"
  | JObj "(string \<times> jsval) list"

text \<open>The code unit of a character, and the digit of a value below 16.\<close>

definition code :: "char \<Rightarrow> nat" where
  "code c = of_char c"

definition digit_char :: "nat \<Rightarrow> char" where
  "digit_char d = ''0123456789abcdef'' ! d"

text \<open>The decimal digits of a number that is not negative.\<close>

function dec_digits :: "int \<Rightarrow> string" where
  "dec_digits i =
     (if i < 10 then [digit_char (nat i)]
      else dec_digits (i div 10) @ [digit_char (nat (i mod 10))])"
  by pat_completeness auto
termination
  by (relation "measure nat") auto

declare dec_digits.simps [simp del]

text \<open>\<open>Number::toString\<close> on an integer value.\<close>

definition dec_int :: "int \<Rightarrow> string" where
  "dec_int i = (if i < 0 then CHR ''-'' # dec_digits (- i) else dec_digits i)"

definition dec_nat :: "nat \<Rightarrow> string" where
  "dec_nat n = dec_digits (int n)"

text \<open>
  \<open>QuoteJSONString\<close>: the two-character escapes, \<open>\<^verbatim>\<open>\u00XX\<close>\<close> for the other
  control characters, every other code unit as it is.
\<close>

definition quote_char :: "char \<Rightarrow> string" where
  "quote_char c =
     (let n = code c in
      if n = 8 then [CHR 0x5C, CHR ''b'']
      else if n = 9 then [CHR 0x5C, CHR ''t'']
      else if n = 10 then [CHR 0x5C, CHR ''n'']
      else if n = 12 then [CHR 0x5C, CHR ''f'']
      else if n = 13 then [CHR 0x5C, CHR ''r'']
      else if n = 34 then [CHR 0x5C, CHR 0x22]
      else if n = 92 then [CHR 0x5C, CHR 0x5C]
      else if n < 32 then [CHR 0x5C, CHR ''u'', CHR ''0'', CHR ''0'', digit_char (n div 16), digit_char (n mod 16)]
      else [c])"

definition quote :: "string \<Rightarrow> string" where
  "quote s = CHR 0x22 # concat (map quote_char s) @ [CHR 0x22]"

fun join :: "string \<Rightarrow> string list \<Rightarrow> string" where
  "join sep [] = []"
| "join sep [x] = x"
| "join sep (x # y # ys) = x @ sep @ join sep (y # ys)"

text \<open>
  \<open>SerializeJSONProperty\<close>: \<open>None\<close> is the result \<open>undefined\<close>.  In an array an
  element without a serialization is written \<open>null\<close>; in an object such a property is
  left out.
\<close>

fun JSON_stringify :: "jsval \<Rightarrow> string option"
  and stringify_elements :: "jsval list \<Rightarrow> string list"
  and stringify_members :: "(string \<times> jsval) list \<Rightarrow> string list" where
  "JSON_stringify JUndefined = None"
| "JSON_stringify JNull = Some ''null''"
| "JSON_stringify (JBool b) = Some (if b then ''true'' else ''false'')"
| "JSON_stringify (JNum n) = Some (dec_int n)"
| "JSON_stringify JNaN = Some ''null''"
| "JSON_stringify (JInfinity b) = Some ''null''"
| "JSON_stringify (JStr s) = Some (quote s)"
| "JSON_stringify (JArr xs) = Some (''['' @ join '','' (stringify_elements xs) @ '']'')"
| "JSON_stringify (JObj ps) = Some (''{'' @ join '','' (stringify_members ps) @ ''}'')"
| "stringify_elements [] = []"
| "stringify_elements (x # xs) =
     (case JSON_stringify x of None \<Rightarrow> ''null'' | Some s \<Rightarrow> s) # stringify_elements xs"
| "stringify_members [] = []"
| "stringify_members (p # ps) =
     (case JSON_stringify (snd p) of
        None \<Rightarrow> stringify_members ps
      | Some s \<Rightarrow> (quote (fst p) @ '':'' @ s) # stringify_members ps)"

section \<open>Objects: property order and the spread\<close>

definition is_digit :: "char \<Rightarrow> bool" where
  "is_digit c = (48 \<le> code c \<and> code c \<le> 57)"

definition digit_val :: "char \<Rightarrow> int" where
  "digit_val c = int (code c) - 48"

definition dec_value :: "string \<Rightarrow> int" where
  "dec_value s = foldl (\<lambda>n c. 10 * n + digit_val c) 0 s"

text \<open>A string of decimal digits with no leading zero, as \<open>dec_nat\<close> writes them.\<close>

definition canonical_digits :: "string \<Rightarrow> bool" where
  "canonical_digits s = (s \<noteq> [] \<and> list_all is_digit s \<and> (length s = 1 \<or> code (hd s) \<noteq> 48))"

text \<open>
  An array index is a property key that is the canonical text of a number below
  \<open>2^32 - 1\<close>.  The own property keys of an object are its array indices in ascending
  order, then its other keys in the order of their creation.
\<close>

definition array_index :: "string \<Rightarrow> int option" where
  "array_index k =
     (if canonical_digits k \<and> dec_value k < 4294967295 then Some (dec_value k) else None)"

definition index_below :: "int \<Rightarrow> string \<times> jsval \<Rightarrow> bool" where
  "index_below n p = (case array_index (fst p) of Some m \<Rightarrow> m < n | None \<Rightarrow> False)"

text \<open>
  \<open>CreateDataProperty\<close>: an existing property keeps its place and takes the new
  value; a new one is put where the property order wants it.
\<close>

definition define_prop :: "(string \<times> jsval) list \<Rightarrow> string \<Rightarrow> jsval \<Rightarrow> (string \<times> jsval) list" where
  "define_prop ps k v =
     (if k \<in> set (map fst ps) then map (\<lambda>p. if fst p = k then (k, v) else p) ps
      else
        (case array_index k of
           None \<Rightarrow> ps @ [(k, v)]
         | Some n \<Rightarrow> takeWhile (index_below n) ps @ (k, v) # dropWhile (index_below n) ps))"

text \<open>
  The own enumerable properties a spread copies: those of an object, the elements of
  an array and the characters of a string under their indices, none of any other value.
\<close>

fun own_props :: "jsval \<Rightarrow> (string \<times> jsval) list" where
  "own_props (JObj ps) = ps"
| "own_props (JArr xs) = zip (map dec_nat [0..<length xs]) xs"
| "own_props (JStr s) = zip (map dec_nat [0..<length s]) (map (\<lambda>c. JStr [c]) s)"
| "own_props v = []"

definition put_prop :: "(string \<times> jsval) list \<Rightarrow> string \<times> jsval \<Rightarrow> (string \<times> jsval) list" where
  "put_prop acc p = define_prop acc (fst p) (snd p)"

definition copy_props :: "(string \<times> jsval) list \<Rightarrow> jsval \<Rightarrow> (string \<times> jsval) list" where
  "copy_props target src = foldl put_prop target (own_props src)"

text \<open>The object literal \<open>{ ...a, ...b }\<close>.\<close>

definition spread2 :: "jsval \<Rightarrow> jsval \<Rightarrow> jsval" where
  "spread2 a b = JObj (copy_props (copy_props [] a) b)"

text \<open>The object literal \<open>{ ...p, k: v }\<close> of the playground's controls.\<close>

definition with_prop :: "jsval \<Rightarrow> string \<Rightarrow> jsval \<Rightarrow> jsval" where
  "with_prop p k v = JObj (define_prop (copy_props [] p) k v)"


section \<open>\<open>JSON.parse\<close>\<close>

text \<open>
  The text is cut into tokens, and the tokens are read by a machine with a stack of the
  arrays and objects that are open.  Two kinds of text are correct JSON and yet have no
  value in this model: a number that is not an integer between \<open>-2^53\<close> and \<open>2^53\<close>
  (written with a fraction or an exponent, or too long, or \<open>-0\<close>), and a string with a
  \<open>\<^verbatim>\<open>\u\<close>\<close> escape of a code unit above 255.  The tokenizer marks them, and the result
  of parsing is then \<open>Unmodelled\<close>, unless the text is wrong elsewhere.
\<close>

text \<open>The exceptions of the platform that the hook can meet.\<close>

datatype js_error = SyntaxError | SecurityError | QuotaExceededError

datatype token =
    TLBrace | TRBrace | TLBracket | TRBracket | TComma | TColon
  | TString string | TNumber int | TTrue | TFalse | TNull

definition hex_val :: "char \<Rightarrow> nat option" where
  "hex_val c =
     (if 48 \<le> code c \<and> code c \<le> 57 then Some (code c - 48)
      else if 97 \<le> code c \<and> code c \<le> 102 then Some (code c - 87)
      else if 65 \<le> code c \<and> code c \<le> 70 then Some (code c - 55)
      else None)"

definition hex4 :: "char \<Rightarrow> char \<Rightarrow> char \<Rightarrow> char \<Rightarrow> nat option" where
  "hex4 a b c d =
     (case (hex_val a, hex_val b, hex_val c, hex_val d) of
        (Some x, Some y, Some z, Some w) \<Rightarrow> Some (((x * 16 + y) * 16 + z) * 16 + w)
      | _ \<Rightarrow> None)"

text \<open>The character a two-character escape stands for.\<close>

definition unescape :: "char \<Rightarrow> char option" where
  "unescape e =
     (if code e = 34 then Some (CHR 0x22)
      else if code e = 92 then Some (CHR 0x5C)
      else if code e = 47 then Some (CHR ''/'')
      else if code e = 98 then Some (CHR 0x08)
      else if code e = 102 then Some (CHR 0x0C)
      else if code e = 110 then Some (CHR 0x0A)
      else if code e = 114 then Some (CHR 0x0D)
      else if code e = 116 then Some (CHR 0x09)
      else None)"

definition add_char :: "char \<Rightarrow> bool \<Rightarrow> string \<times> bool \<times> string \<Rightarrow> string \<times> bool \<times> string" where
  "add_char c t r = (c # fst r, t \<or> fst (snd r), snd (snd r))"

text \<open>
  One character of a string, which may be written as an escape: the character, whether
  it is outside the model, and the text after it.  \<open>None\<close> is a syntax error (a
  control character, a wrong escape, the end of the text).
\<close>

definition string_char :: "string \<Rightarrow> (char \<times> bool \<times> string) option" where
  "string_char s =
     (case s of
        [] \<Rightarrow> None
      | c # cs \<Rightarrow>
          if code c = 92 then
            (case cs of
               [] \<Rightarrow> None
             | e # cs' \<Rightarrow>
                 if code e = 117 then
                   (case cs' of
                      a # b # c' # d # rest \<Rightarrow>
                        (case hex4 a b c' d of
                           None \<Rightarrow> None
                         | Some n \<Rightarrow> Some (if n < 256 then char_of n else CHR 0x3F, 256 \<le> n, rest))
                    | _ \<Rightarrow> None)
                 else
                   (case unescape e of
                      None \<Rightarrow> None
                    | Some ch \<Rightarrow> Some (ch, False, cs')))
          else if code c < 32 then None
          else Some (c, False, cs))"

lemma string_char_shorter: "string_char s = Some r \<Longrightarrow> length (snd (snd r)) < length s"
  by (auto simp: string_char_def split: list.splits if_splits option.splits)

text \<open>
  The rest of a string after its opening quote: the characters, whether one of them is
  outside the model, and the text after the closing quote.
\<close>

function lex_string :: "string \<Rightarrow> (string \<times> bool \<times> string) option" where
  "lex_string [] = None"
| "lex_string (c # cs) =
     (if code c = 34 then Some ([], False, cs)
      else
        (case string_char (c # cs) of
           None \<Rightarrow> None
         | Some r \<Rightarrow> map_option (add_char (fst r) (fst (snd r))) (lex_string (snd (snd r)))))"
  by pat_completeness auto
termination
  by (relation "measure length") (auto dest: string_char_shorter)

declare lex_string.simps(2) [simp del]

lemma lex_string_shorter: "lex_string s = Some r \<Longrightarrow> length (snd (snd r)) < length s"
proof (induction s arbitrary: r rule: lex_string.induct)
  case 1
  then show ?case by simp
next
  case (2 c cs)
  show ?case
  proof (cases "code c = 34")
    case True
    with "2.prems" show ?thesis by (auto simp: lex_string.simps(2))
  next
    case False
    with "2.prems" obtain q r' where q: "string_char (c # cs) = Some q"
      and r': "lex_string (snd (snd q)) = Some r'" and r: "r = add_char (fst q) (fst (snd q)) r'"
      by (auto simp: lex_string.simps(2) split: option.splits)
    from "2.IH" [OF False q r'] have "length (snd (snd r')) < length (snd (snd q))" .
    moreover from string_char_shorter [OF q] have "length (snd (snd q)) < length (c # cs)" .
    ultimately show ?thesis using r by (simp add: add_char_def)
  qed
qed

text \<open>
  A number token is the longest run of the characters a number can hold.  The run is a
  number when it follows the grammar: an optional minus, an integer part without a
  leading zero, an optional fraction, an optional exponent.
\<close>

definition number_char :: "char \<Rightarrow> bool" where
  "number_char c = (is_digit c \<or> c = CHR ''-'' \<or> c = CHR ''+'' \<or> c = CHR ''.'' \<or> c = CHR ''e'' \<or> c = CHR ''E'')"

definition valid_exponent :: "string \<Rightarrow> bool" where
  "valid_exponent s =
     (case s of
        [] \<Rightarrow> True
      | c # cs \<Rightarrow>
          (c = CHR ''e'' \<or> c = CHR ''E'') \<and>
          (let ds = (case cs of [] \<Rightarrow> [] | x # xs \<Rightarrow> if x = CHR ''+'' \<or> x = CHR ''-'' then xs else cs)
           in ds \<noteq> [] \<and> list_all is_digit ds))"

definition valid_fraction :: "string \<Rightarrow> bool" where
  "valid_fraction s =
     (case s of
        [] \<Rightarrow> True
      | c # cs \<Rightarrow>
          if c = CHR ''.'' then takeWhile is_digit cs \<noteq> [] \<and> valid_exponent (dropWhile is_digit cs)
          else valid_exponent s)"

text \<open>
  The token of a run: \<open>None\<close> when the run is no number, otherwise the integer and
  whether the number is outside the model.
\<close>

definition number_token :: "string \<Rightarrow> (int \<times> bool) option" where
  "number_token run =
     (let neg = (run \<noteq> [] \<and> hd run = CHR ''-'');
          body = (if neg then tl run else run);
          ds = takeWhile is_digit body;
          rest = dropWhile is_digit body
      in if canonical_digits ds \<and> valid_fraction rest then
           Some ((if neg then - dec_value ds else dec_value ds),
                 rest \<noteq> [] \<or> 9007199254740992 < dec_value ds \<or> (neg \<and> dec_value ds = 0))
         else None)"

definition is_space :: "char \<Rightarrow> bool" where
  "is_space c = (code c = 32 \<or> code c = 9 \<or> code c = 10 \<or> code c = 13)"

definition add_token :: "token \<Rightarrow> bool \<Rightarrow> (token list \<times> bool) option \<Rightarrow> (token list \<times> bool) option" where
  "add_token t u r = map_option (\<lambda>p. (t # fst p, u \<or> snd p)) r"

function lex :: "string \<Rightarrow> (token list \<times> bool) option" where
  "lex [] = Some ([], False)"
| "lex (c # cs) =
     (if is_space c then lex cs
      else if c = CHR ''{'' then add_token TLBrace False (lex cs)
      else if c = CHR ''}'' then add_token TRBrace False (lex cs)
      else if c = CHR ''['' then add_token TLBracket False (lex cs)
      else if c = CHR '']'' then add_token TRBracket False (lex cs)
      else if c = CHR '','' then add_token TComma False (lex cs)
      else if c = CHR '':'' then add_token TColon False (lex cs)
      else if code c = 34 then
        (case lex_string cs of
           None \<Rightarrow> None
         | Some r \<Rightarrow> add_token (TString (fst r)) (fst (snd r)) (lex (snd (snd r))))
      else if number_char c then
        (case number_token (takeWhile number_char (c # cs)) of
           None \<Rightarrow> None
         | Some n \<Rightarrow> add_token (TNumber (fst n)) (snd n) (lex (dropWhile number_char cs)))
      else if take 4 (c # cs) = ''true'' then add_token TTrue False (lex (drop 3 cs))
      else if take 5 (c # cs) = ''false'' then add_token TFalse False (lex (drop 4 cs))
      else if take 4 (c # cs) = ''null'' then add_token TNull False (lex (drop 3 cs))
      else None)"
  by pat_completeness auto
termination
  by (relation "measure length")
    (auto dest: lex_string_shorter simp: less_Suc_eq_le length_dropWhile_le le_SucI)

declare lex.simps(2) [simp del]

text \<open>The stack of the arrays and objects that are open, innermost first.\<close>

datatype frame =
    FArr "jsval list"
  | FObj "(string \<times> jsval) list"
  | FKey "(string \<times> jsval) list" string

datatype mode = MValue | MValueOrClose | MKeyOrClose | MKey | MColon | MAfter | MDone jsval

type_synonym pstate = "mode \<times> frame list"

text \<open>A value is complete: it is the result, or goes into the innermost open frame.\<close>

fun complete :: "jsval \<Rightarrow> frame list \<Rightarrow> pstate option" where
  "complete v [] = Some (MDone v, [])"
| "complete v (FArr es # st) = Some (MAfter, FArr (es @ [v]) # st)"
| "complete v (FKey ps k # st) = Some (MAfter, FObj (define_prop ps k v) # st)"
| "complete v (FObj ps # st) = None"

fun start_value :: "token \<Rightarrow> frame list \<Rightarrow> pstate option" where
  "start_value (TString s) st = complete (JStr s) st"
| "start_value (TNumber n) st = complete (JNum n) st"
| "start_value TTrue st = complete (JBool True) st"
| "start_value TFalse st = complete (JBool False) st"
| "start_value TNull st = complete JNull st"
| "start_value TLBracket st = Some (MValueOrClose, FArr [] # st)"
| "start_value TLBrace st = Some (MKeyOrClose, FObj [] # st)"
| "start_value t st = None"

fun top_array :: "frame list \<Rightarrow> (jsval list \<times> frame list) option" where
  "top_array (FArr es # st) = Some (es, st)"
| "top_array st = None"

fun top_object :: "frame list \<Rightarrow> ((string \<times> jsval) list \<times> frame list) option" where
  "top_object (FObj ps # st) = Some (ps, st)"
| "top_object st = None"

text \<open>
  One token.  After \<open>[\<close> a value or \<open>]\<close> may come, after \<open>{\<close> a key or \<open>}\<close>; after a
  comma a value (in an array) or a key (in an object) must come; after a complete
  element or member a comma or the closing bracket.  \<open>None\<close> is a syntax error.
\<close>

definition pstep :: "pstate \<Rightarrow> token \<Rightarrow> pstate option" where
  "pstep s t =
     (let st = snd s in
      case fst s of
        MValue \<Rightarrow> start_value t st
      | MValueOrClose \<Rightarrow>
          if t = TRBracket then
            (case top_array st of None \<Rightarrow> None | Some a \<Rightarrow> complete (JArr (fst a)) (snd a))
          else start_value t st
      | MKeyOrClose \<Rightarrow>
          (case top_object st of
             None \<Rightarrow> None
           | Some ob \<Rightarrow>
               (case t of
                  TRBrace \<Rightarrow> complete (JObj (fst ob)) (snd ob)
                | TString k \<Rightarrow> Some (MColon, FKey (fst ob) k # snd ob)
                | _ \<Rightarrow> None))
      | MKey \<Rightarrow>
          (case top_object st of
             None \<Rightarrow> None
           | Some ob \<Rightarrow>
               (case t of
                  TString k \<Rightarrow> Some (MColon, FKey (fst ob) k # snd ob)
                | _ \<Rightarrow> None))
      | MColon \<Rightarrow> if t = TColon then Some (MValue, st) else None
      | MAfter \<Rightarrow>
          (case top_array st of
             Some a \<Rightarrow>
               if t = TComma then Some (MValue, st)
               else if t = TRBracket then complete (JArr (fst a)) (snd a)
               else None
           | None \<Rightarrow>
               (case top_object st of
                  Some ob \<Rightarrow>
                    if t = TComma then Some (MKey, st)
                    else if t = TRBrace then complete (JObj (fst ob)) (snd ob)
                    else None
                | None \<Rightarrow> None))
      | MDone v \<Rightarrow> None)"

fun prun :: "pstate \<Rightarrow> token list \<Rightarrow> pstate option" where
  "prun s [] = Some s"
| "prun s (t # ts) = (case pstep s t of None \<Rightarrow> None | Some s' \<Rightarrow> prun s' ts)"

datatype parsed = Thrown js_error | Parsed jsval | Unmodelled

text \<open>The value of a machine that has stopped with a complete value and nothing open.\<close>

fun result :: "pstate option \<Rightarrow> jsval option" where
  "result (Some (MDone v, [])) = Some v"
| "result s = None"

definition JSON_parse :: "string \<Rightarrow> parsed" where
  "JSON_parse s =
     (case lex s of
        None \<Rightarrow> Thrown SyntaxError
      | Some l \<Rightarrow>
          (case result (prun (MValue, []) (fst l)) of
             None \<Rightarrow> Thrown SyntaxError
           | Some v \<Rightarrow> if snd l then Unmodelled else Parsed v))"

section \<open>Values that JSON can carry\<close>

text \<open>
  A value is carried by JSON unchanged when it holds no \<open>undefined\<close>, \<open>NaN\<close> or infinity,
  its numbers are integers of at most \<open>2^53\<close> in size, and the properties of its objects
  stand in property order under distinct keys, that is, as copying them one by one
  into an empty object leaves them.
\<close>

fun json_safe :: "jsval \<Rightarrow> bool"
  and safe_elements :: "jsval list \<Rightarrow> bool"
  and safe_members :: "(string \<times> jsval) list \<Rightarrow> bool" where
  "json_safe JUndefined = False"
| "json_safe JNull = True"
| "json_safe (JBool b) = True"
| "json_safe (JNum n) = (\<bar>n\<bar> \<le> 9007199254740992)"
| "json_safe JNaN = False"
| "json_safe (JInfinity b) = False"
| "json_safe (JStr s) = True"
| "json_safe (JArr xs) = safe_elements xs"
| "json_safe (JObj ps) = (safe_members ps \<and> copy_props [] (JObj ps) = ps)"
| "safe_elements [] = True"
| "safe_elements (x # xs) = (json_safe x \<and> safe_elements xs)"
| "safe_members [] = True"
| "safe_members (p # ps) = (json_safe (snd p) \<and> safe_members ps)"

text \<open>
  The tokens of the text that \<open>JSON.stringify\<close> writes for such a value, and the texts
  after which a number ends (used to state what the tokenizer does on that text).
\<close>

fun tokens_of :: "jsval \<Rightarrow> token list"
  and elems_tokens :: "jsval list \<Rightarrow> token list"
  and members_tokens :: "(string \<times> jsval) list \<Rightarrow> token list" where
  "tokens_of (JBool b) = [if b then TTrue else TFalse]"
| "tokens_of (JNum n) = [TNumber n]"
| "tokens_of (JStr s) = [TString s]"
| "tokens_of (JArr xs) = TLBracket # elems_tokens xs @ [TRBracket]"
| "tokens_of (JObj ps) = TLBrace # members_tokens ps @ [TRBrace]"
| "tokens_of JUndefined = [TNull]"
| "tokens_of JNull = [TNull]"
| "tokens_of JNaN = [TNull]"
| "tokens_of (JInfinity b) = [TNull]"
| "elems_tokens [] = []"
| "elems_tokens [x] = tokens_of x"
| "elems_tokens (x # y # ys) = tokens_of x @ TComma # elems_tokens (y # ys)"
| "members_tokens [] = []"
| "members_tokens [p] = TString (fst p) # TColon # tokens_of (snd p)"
| "members_tokens (p # q # ps) =
     TString (fst p) # TColon # tokens_of (snd p) @ TComma # members_tokens (q # ps)"

definition add_tokens :: "token list \<Rightarrow> (token list \<times> bool) option \<Rightarrow> (token list \<times> bool) option" where
  "add_tokens ts r = map_option (\<lambda>p. (ts @ fst p, snd p)) r"

definition boundary :: "string \<Rightarrow> bool" where
  "boundary rest = (rest = [] \<or> \<not> number_char (hd rest))"

text \<open>
  The own property keys of every object are distinct.  The frames and states of the
  parsing machine in which this holds of the objects under construction:
\<close>

definition keys_distinct :: "jsval \<Rightarrow> bool" where
  "keys_distinct v = distinct (map fst (own_props v))"

fun frame_ok :: "frame \<Rightarrow> bool" where
  "frame_ok (FArr es) = True"
| "frame_ok (FObj ps) = distinct (map fst ps)"
| "frame_ok (FKey ps k) = distinct (map fst ps)"

fun state_ok :: "pstate \<Rightarrow> bool" where
  "state_ok (MDone v, st) = (keys_distinct v \<and> list_all frame_ok st)"
| "state_ok (m, st) = list_all frame_ok st"

section \<open>The history hook (\<open>useHistoryState\<close>)\<close>

record history =
  past :: "jsval list"
  present :: jsval
  future :: "jsval list"

text \<open>The argument of \<open>setState\<close>: a new document, or a function of the present one.\<close>

datatype set_arg = Literal jsval | Updater "jsval \<Rightarrow> jsval"

text \<open>\<open>typeof newState === 'function' ? newState(prev) : newState\<close>\<close>

definition resolve :: "set_arg \<Rightarrow> jsval \<Rightarrow> jsval" where
  "resolve newState prev = (case newState of Updater f \<Rightarrow> f prev | Literal x \<Rightarrow> x)"

definition setState :: "set_arg \<Rightarrow> history \<Rightarrow> history" where
  "setState newState cur =
     (let v = resolve newState (present cur) in
      if JSON_stringify v = JSON_stringify (present cur) then cur
      else \<lparr>past = past cur @ [present cur], present = v, future = []\<rparr>)"

definition undo :: "history \<Rightarrow> history" where
  "undo cur =
     (if length (past cur) = 0 then cur
      else
        let previous = past cur ! (length (past cur) - 1);
            newPast = take (length (past cur) - 1) (past cur)
        in \<lparr>past = newPast, present = previous, future = present cur # future cur\<rparr>)"

definition redo :: "history \<Rightarrow> history" where
  "redo cur =
     (if length (future cur) = 0 then cur
      else
        let next = future cur ! 0;
            newFuture = drop 1 (future cur)
        in \<lparr>past = past cur @ [present cur], present = next, future = newFuture\<rparr>)"



text \<open>The documents of a history, oldest first, with the present one among them.\<close>

definition timeline :: "history \<Rightarrow> jsval list" where
  "timeline h = past h @ [present h] @ future h"

text \<open>
  A history in which no two neighbouring documents have the same text.  The histories
  that the hook reaches are of this kind (shown below), so there every \<open>undo\<close> and
  \<open>redo\<close> that acts changes the present document.
\<close>

definition gated :: "history \<Rightarrow> bool" where
  "gated h = distinct_adj (map JSON_stringify (timeline h))"

subsection \<open>Persistence of the present document\<close>

text \<open>
  \<open>window.localStorage\<close>: the stored items, and the two ways a call can throw (access
  to the storage denied; no room left for a write).
\<close>

record storage =
  items :: "string \<rightharpoonup> string"
  denied :: bool
  full :: bool

definition getItem :: "storage \<Rightarrow> string \<Rightarrow> js_error + string option" where
  "getItem st k = (if denied st then Inl SecurityError else Inr (items st k))"

definition setItem :: "storage \<Rightarrow> string \<Rightarrow> string \<Rightarrow> js_error + storage" where
  "setItem st k v =
     (if denied st then Inl SecurityError
      else if full st then Inl QuotaExceededError
      else Inr (st\<lparr>items := (items st)(k \<mapsto> v)\<rparr>))"

text \<open>
  The body of the persistence effect.  \<open>setItem\<close> converts its argument to a string,
  so the result \<open>undefined\<close> of \<open>JSON.stringify\<close> is stored as the text
  \<open>undefined\<close>; an exception is caught and logged, and the storage stays as it was.
\<close>

definition persist :: "string \<Rightarrow> jsval \<Rightarrow> storage \<Rightarrow> storage" where
  "persist k p st =
     (case setItem st k (case JSON_stringify p of None \<Rightarrow> ''undefined'' | Some s \<Rightarrow> s) of
        Inl e \<Rightarrow> st
      | Inr st' \<Rightarrow> st')"

text \<open>
  The initial state of the hook.  An exception of \<open>getItem\<close> or of \<open>JSON.parse\<close> is
  caught, and so is an absent or empty item passed over: the history then starts from
  \<open>initialValue\<close>.  Otherwise what was parsed is spread over \<open>initialValue\<close>.  The
  result is \<open>None\<close> only where the stored text has no value in this model.
\<close>

definition initializer :: "jsval \<Rightarrow> string \<Rightarrow> storage \<Rightarrow> history option" where
  "initializer initialValue k st =
     (case getItem st k of
        Inl e \<Rightarrow> Some \<lparr>past = [], present = initialValue, future = []\<rparr>
      | Inr item \<Rightarrow>
          (case item of
             None \<Rightarrow> Some \<lparr>past = [], present = initialValue, future = []\<rparr>
           | Some txt \<Rightarrow>
               if txt = [] then Some \<lparr>past = [], present = initialValue, future = []\<rparr>
               else
                 (case JSON_parse txt of
                    Thrown e \<Rightarrow> Some \<lparr>past = [], present = initialValue, future = []\<rparr>
                  | Parsed v \<Rightarrow>
                      Some \<lparr>past = [], present = spread2 initialValue v, future = []\<rparr>
                  | Unmodelled \<Rightarrow> None)))"

text \<open>
  A mounted hook: its history, the storage, and the number of times the persistence
  effect has run.  A call of \<open>setState\<close>, \<open>undo\<close> or \<open>redo\<close> replaces the history by
  the result of the updater; the effect, whose dependencies are \<open>present\<close> and the
  key, runs after it when \<open>present\<close> is no longer the same.  (The dependency is
  compared by \<open>Object.is\<close>; values carry no identity here, so the comparison is by
  value.  The two agree wherever an updater returns \<open>cur\<close> itself and wherever it
  returns a history whose present document has another value.)
\<close>

record hook =
  hist :: history
  store :: storage
  saves :: nat

datatype action = Set set_arg | Undo | Redo

definition reducer :: "action \<Rightarrow> history \<Rightarrow> history" where
  "reducer a = (case a of Set x \<Rightarrow> setState x | Undo \<Rightarrow> undo | Redo \<Rightarrow> redo)"

definition dispatch :: "string \<Rightarrow> action \<Rightarrow> hook \<Rightarrow> hook" where
  "dispatch k a s =
     (let h' = reducer a (hist s) in
      if present h' = present (hist s) then s\<lparr>hist := h'\<rparr>
      else \<lparr>hist = h', store = persist k (present h') (store s), saves = saves s + 1\<rparr>)"

text \<open>Mounting the hook: the initial state, and the first run of the effect.\<close>

definition useHistoryState :: "jsval \<Rightarrow> string \<Rightarrow> storage \<Rightarrow> hook option" where
  "useHistoryState initialValue k st =
     map_option (\<lambda>h. \<lparr>hist = h, store = persist k (present h) st, saves = 1\<rparr>)
       (initializer initialValue k st)"

definition STORAGE_KEY :: string where
  "STORAGE_KEY = ''design-forge-storage-v1''"

definition DEFAULT_DESIGN :: jsval where
  "DEFAULT_DESIGN = JObj
     [(''primaryColor'', JStr ''#3b82f6''),
      (''secondaryColor'', JStr ''#10b981''),
      (''fontFamily'', JStr ''sans''),
      (''borderRadius'', JStr ''md''),
      (''layoutMode'', JStr ''landing''),
      (''darkMode'', JBool True),
      (''baseFontSize'', JNum 16),
      (''headingText'', JStr ''Build Your **Next Idea**''),
      (''subheadingText'', JStr ''A visual playground for developers and designers to conceptualize interfaces instantly.''),
      (''bodyText'', JStr ''Automated styling and layout generation for rapid prototyping.''),
      (''gridColumns'', JNum 3),
      (''gridGap'', JNum 24)]"




section \<open>The formatted-text renderer (\<open>renderFormattedText\<close>)\<close>

text \<open>
  The regular expression \<open>\<^verbatim>\<open>(\*\*.*?\*\*|\*.*?\*)\<close>\<close>.  A dot matches every character
  but a line terminator.  \<open>lazy_until d s\<close> is the number of characters the lazy
  \<open>\<^verbatim>\<open>.*?\<close>\<close> takes from \<open>s\<close> before the closing delimiter \<open>d\<close>: the least one, if any.
\<close>

definition line_terminator :: "char \<Rightarrow> bool" where
  "line_terminator c = (c = CHR 0x0A \<or> c = CHR 0x0D)"

fun lazy_until :: "string \<Rightarrow> string \<Rightarrow> nat option" where
  "lazy_until d [] = (if d = [] then Some 0 else None)"
| "lazy_until d (c # cs) =
     (if take (length d) (c # cs) = d then Some 0
      else if line_terminator c then None
      else map_option Suc (lazy_until d cs))"

text \<open>
  A match of the expression at the start of \<open>s\<close>, as its length: the first alternative
  (two asterisks on each side) is tried before the second (one on each side).
\<close>

definition match_at :: "string \<Rightarrow> nat option" where
  "match_at s =
     (case (if take 2 s = ''**'' then lazy_until ''**'' (drop 2 s) else None) of
        Some k \<Rightarrow> Some (2 + k + 2)
      | None \<Rightarrow>
          (case (if take 1 s = ''*'' then lazy_until ''*'' (drop 1 s) else None) of
             Some k \<Rightarrow> Some (1 + k + 1)
           | None \<Rightarrow> None))"

lemma match_at_positive: "match_at s = Some n \<Longrightarrow> 0 < n"
  by (auto simp: match_at_def split: option.splits if_splits)

text \<open>
  \<open>String.prototype.split\<close> with this expression: the text before each match, then the
  match itself (the capture group), and at the end the text after the last match.
  \<open>acc\<close> holds the characters passed since the last match.
\<close>

function split_loop :: "string \<Rightarrow> string \<Rightarrow> string list" where
  "split_loop acc [] = [acc]"
| "split_loop acc (c # cs) =
     (case match_at (c # cs) of
        None \<Rightarrow> split_loop (acc @ [c]) cs
      | Some n \<Rightarrow> acc # take n (c # cs) # split_loop [] (drop n (c # cs)))"
  by pat_completeness auto
termination
  by (relation "measure (\<lambda>(acc, s). length s)") (auto dest: match_at_positive)

definition startsWith :: "string \<Rightarrow> string \<Rightarrow> bool" where
  "startsWith s p = (take (length p) s = p)"

definition endsWith :: "string \<Rightarrow> string \<Rightarrow> bool" where
  "endsWith s p = (length p \<le> length s \<and> drop (length s - length p) s = p)"

text \<open>\<open>s.slice(a, -b)\<close> for \<open>a, b \<ge> 0\<close>: empty when the two ends cross.\<close>

definition slice :: "string \<Rightarrow> nat \<Rightarrow> nat \<Rightarrow> string" where
  "slice s a b =
     (let from = min a (length s); to = length s - b
      in if from < to then take (to - from) (drop from s) else [])"

text \<open>
  A rendered segment: a \<open>strong\<close> or an \<open>em\<close> element with its colour and text, or a
  plain string.
\<close>

datatype segment = Strong string string | Em string string | Plain string

definition render_part :: "string \<Rightarrow> string \<Rightarrow> string \<Rightarrow> segment" where
  "render_part primaryColor secondaryColor part =
     (if startsWith part ''**'' \<and> endsWith part ''**'' then Strong primaryColor (slice part 2 2)
      else if startsWith part ''*'' \<and> endsWith part ''*'' then Em secondaryColor (slice part 1 1)
      else Plain part)"

definition renderFormattedText :: "string \<Rightarrow> string \<Rightarrow> string \<Rightarrow> segment list option" where
  "renderFormattedText text primaryColor secondaryColor =
     (if text = [] then None
      else Some (map (render_part primaryColor secondaryColor) (split_loop [] text)))"

text \<open>The characters a rendered text shows, in order.\<close>

fun segment_text :: "segment \<Rightarrow> string" where
  "segment_text (Strong c t) = t"
| "segment_text (Em c t) = t"
| "segment_text (Plain t) = t"

section \<open>\<open>JSON.parse\<close> reads back what \<open>JSON.stringify\<close> writes\<close>

subsection \<open>Numbers\<close>

lemma code_eq_iff: "code c = code d \<longleftrightarrow> c = d"
  by (simp add: code_def)

lemma digit_char_cases:
  fixes d :: nat
  assumes "d < 16"
  obtains "d = 0" | "d = 1" | "d = 2" | "d = 3" | "d = 4" | "d = 5" | "d = 6" | "d = 7"
    | "d = 8" | "d = 9" | "d = 10" | "d = 11" | "d = 12" | "d = 13" | "d = 14" | "d = 15"
proof -
  from assms have "d = 0 \<or> d = 1 \<or> d = 2 \<or> d = 3 \<or> d = 4 \<or> d = 5 \<or> d = 6 \<or> d = 7
    \<or> d = 8 \<or> d = 9 \<or> d = 10 \<or> d = 11 \<or> d = 12 \<or> d = 13 \<or> d = 14 \<or> d = 15"
    by arith
  then show thesis using that by blast
qed

lemma digit_char_dec:
  assumes "d < 10"
  shows "is_digit (digit_char d) \<and> digit_val (digit_char d) = int d
    \<and> (code (digit_char d) = 48 \<longleftrightarrow> d = 0)"
proof -
  from assms have "d < 16" by simp
  then show ?thesis using assms
    by (cases d rule: digit_char_cases) (simp_all add: digit_char_def is_digit_def digit_val_def code_def)
qed

lemma hex_val_digit_char:
  assumes "d < 16"
  shows "hex_val (digit_char d) = Some d"
  using assms by (cases d rule: digit_char_cases) (simp_all add: digit_char_def hex_val_def code_def)

lemma dec_value_snoc: "dec_value (s @ [c]) = 10 * dec_value s + digit_val c"
  by (simp add: dec_value_def)

lemma dec_digits_props:
  "0 \<le> i \<Longrightarrow> list_all is_digit (dec_digits i) \<and> dec_value (dec_digits i) = i \<and> dec_digits i \<noteq> []
     \<and> (0 < i \<longrightarrow> code (hd (dec_digits i)) \<noteq> 48) \<and> (i < 10 \<longrightarrow> length (dec_digits i) = 1)"
proof (induction i rule: dec_digits.induct)
  case (1 i)
  show ?case
  proof (cases "i < 10")
    case True
    with "1.prems" have d: "nat i < 10" by simp
    have eq: "dec_digits i = [digit_char (nat i)]" using True by (simp add: dec_digits.simps)
    from digit_char_dec [OF d] "1.prems" show ?thesis
      by (simp add: eq dec_value_def)
  next
    case False
    then have eq: "dec_digits i = dec_digits (i div 10) @ [digit_char (nat (i mod 10))]"
      by (subst dec_digits.simps) simp
    from False "1.prems" have q: "0 \<le> i div 10" "0 < i div 10" by simp_all
    have d: "nat (i mod 10) < 10" by simp
    note IH = "1.IH" [OF False q(1)]
    from IH q(2) have hd: "code (hd (dec_digits (i div 10))) \<noteq> 48" by simp
    from IH have ne: "dec_digits (i div 10) \<noteq> []" by simp
    have "dec_value (dec_digits i) = 10 * (i div 10) + i mod 10"
      using IH digit_char_dec [OF d] by (simp add: eq dec_value_snoc)
    then have v: "dec_value (dec_digits i) = i" by simp
    show ?thesis using IH digit_char_dec [OF d] hd ne v False by (simp add: eq)
  qed
qed

lemma canonical_dec_digits: "0 \<le> i \<Longrightarrow> canonical_digits (dec_digits i)"
proof -
  assume i: "0 \<le> i"
  note p = dec_digits_props [OF i]
  show ?thesis
  proof (cases "i = 0")
    case True
    with p show ?thesis by (simp add: canonical_digits_def)
  next
    case False
    with i p show ?thesis by (simp add: canonical_digits_def)
  qed
qed

lemma takeWhile_all: "list_all P xs \<Longrightarrow> takeWhile P xs = xs \<and> dropWhile P xs = []"
  by (induction xs) auto

lemma not_digit_minus: "\<not> is_digit (CHR ''-'')"
  by (simp add: is_digit_def code_def)

lemma number_token_dec_int:
  assumes "\<bar>n\<bar> \<le> 9007199254740992"
  shows "number_token (dec_int n) = Some (n, False)"
proof (cases "n < 0")
  case True
  then have m: "0 \<le> - n" "0 < - n" by simp_all
  note p = dec_digits_props [OF m(1)]
  from p have tw: "takeWhile is_digit (dec_digits (- n)) = dec_digits (- n)"
    "dropWhile is_digit (dec_digits (- n)) = []" by (simp_all add: takeWhile_all)
  show ?thesis using True assms p canonical_dec_digits [OF m(1)]
    by (simp add: number_token_def dec_int_def tw valid_fraction_def Let_def)
next
  case False
  then have m: "0 \<le> n" by simp
  note p = dec_digits_props [OF m]
  from p have tw: "takeWhile is_digit (dec_digits n) = dec_digits n"
    "dropWhile is_digit (dec_digits n) = []" by (simp_all add: takeWhile_all)
  from p have "is_digit (hd (dec_digits n))" by (cases "dec_digits n") simp_all
  then have "hd (dec_digits n) \<noteq> CHR ''-''" using not_digit_minus by auto
  then show ?thesis using False assms p canonical_dec_digits [OF m]
    by (simp add: number_token_def dec_int_def tw valid_fraction_def Let_def)
qed

lemma lex_number_start:
  assumes "is_digit c \<or> c = CHR ''-''"
  shows "lex (c # cs) =
    (case number_token (takeWhile number_char (c # cs)) of
       None \<Rightarrow> None
     | Some n \<Rightarrow> add_token (TNumber (fst n)) (snd n) (lex (dropWhile number_char cs)))"
proof -
  from assms have "\<not> is_space c" "c \<noteq> CHR ''{''" "c \<noteq> CHR ''}''" "c \<noteq> CHR ''[''"
    "c \<noteq> CHR '']''" "c \<noteq> CHR '',''" "c \<noteq> CHR '':''" "code c \<noteq> 34" "number_char c"
    by (auto simp: is_space_def is_digit_def code_def number_char_def)
  then show ?thesis by (subst lex.simps) (simp only: if_False if_True)
qed

lemma number_chars_dec_int: "list_all number_char (dec_int n) \<and> dec_int n \<noteq> []
   \<and> (is_digit (hd (dec_int n)) \<or> hd (dec_int n) = CHR ''-'')"
proof (cases "n < 0")
  case True
  then have "0 \<le> - n" by simp
  from dec_digits_props [OF this] have "list_all is_digit (dec_digits (- n))" by simp
  then have "list_all number_char (dec_digits (- n))"
    by (rule list.pred_mono_strong) (simp add: number_char_def)
  with True show ?thesis by (simp add: dec_int_def number_char_def)
next
  case False
  then have "0 \<le> n" by simp
  note p = dec_digits_props [OF this]
  from p have "list_all is_digit (dec_digits n)" by simp
  then have "list_all number_char (dec_digits n)"
    by (rule list.pred_mono_strong) (simp add: number_char_def)
  moreover from p have "is_digit (hd (dec_digits n))" by (cases "dec_digits n") simp_all
  ultimately show ?thesis using False p by (simp add: dec_int_def)
qed

lemma takeWhile_append_boundary:
  assumes "list_all P xs" and "rest = [] \<or> \<not> P (hd rest)"
  shows "takeWhile P (xs @ rest) = xs \<and> dropWhile P (xs @ rest) = rest"
proof -
  from assms(2) have "takeWhile P rest = [] \<and> dropWhile P rest = rest"
    by (cases rest) auto
  with assms(1) show ?thesis by (induction xs) auto
qed

lemma lex_dec_int:
  assumes "\<bar>n\<bar> \<le> 9007199254740992" and "boundary rest"
  shows "lex (dec_int n @ rest) = add_token (TNumber n) False (lex rest)"
proof -
  note nc = number_chars_dec_int [of n]
  from nc obtain c cs where eq: "dec_int n = c # cs" by (cases "dec_int n") auto
  from nc eq have c: "is_digit c \<or> c = CHR ''-''" by simp
  from nc assms(2) have tw: "takeWhile number_char (dec_int n @ rest) = dec_int n"
    "dropWhile number_char (dec_int n @ rest) = rest"
    by (simp_all add: takeWhile_append_boundary boundary_def)
  from c have ncc: "number_char c" by (auto simp: number_char_def)
  from tw(2) ncc have dw: "dropWhile number_char (cs @ rest) = rest" by (simp add: eq)
  have "lex (dec_int n @ rest) = lex (c # (cs @ rest))" by (simp add: eq)
  also have "\<dots> = (case number_token (takeWhile number_char (c # (cs @ rest))) of
       None \<Rightarrow> None
     | Some n \<Rightarrow> add_token (TNumber (fst n)) (snd n) (lex (dropWhile number_char (cs @ rest))))"
    by (rule lex_number_start [OF c])
  also have "takeWhile number_char (c # (cs @ rest)) = dec_int n" using tw(1) by (simp add: eq)
  finally show ?thesis using number_token_dec_int [OF assms(1)] dw by simp
qed

subsection \<open>Strings\<close>

lemma code_char: "code c = n \<Longrightarrow> of_char d = n \<Longrightarrow> c = d"
  by (auto simp: code_def)

lemma escaped_char:
  assumes "code c = 8 \<or> code c = 9 \<or> code c = 10 \<or> code c = 12 \<or> code c = 13
    \<or> code c = 34 \<or> code c = 92"
  shows "c = CHR 0x08 \<or> c = CHR 0x09 \<or> c = CHR 0x0A \<or> c = CHR 0x0C \<or> c = CHR 0x0D
    \<or> c = CHR 0x22 \<or> c = CHR 0x5C"
proof -
  have "c = CHR 0x08" if "code c = 8" by (rule code_char [OF that]) simp
  moreover have "c = CHR 0x09" if "code c = 9" by (rule code_char [OF that]) simp
  moreover have "c = CHR 0x0A" if "code c = 10" by (rule code_char [OF that]) simp
  moreover have "c = CHR 0x0C" if "code c = 12" by (rule code_char [OF that]) simp
  moreover have "c = CHR 0x0D" if "code c = 13" by (rule code_char [OF that]) simp
  moreover have "c = CHR 0x22" if "code c = 34" by (rule code_char [OF that]) simp
  moreover have "c = CHR 0x5C" if "code c = 92" by (rule code_char [OF that]) simp
  ultimately show ?thesis using assms by blast
qed

lemma hex4_byte:
  assumes "n < 256"
  shows "hex4 (CHR ''0'') (CHR ''0'') (digit_char (n div 16)) (digit_char (n mod 16)) = Some n"
proof -
  from assms have "n div 16 < 16" by simp
  then have a: "hex_val (digit_char (n div 16)) = Some (n div 16)" by (rule hex_val_digit_char)
  have b: "hex_val (digit_char (n mod 16)) = Some (n mod 16)" by (rule hex_val_digit_char) simp
  have z: "hex_val (CHR ''0'') = Some 0" by (simp add: hex_val_def code_def)
  show ?thesis by (simp add: hex4_def a b z)
qed

lemma string_char_quote_char:
  "quote_char c \<noteq> [] \<and> code (hd (quote_char c)) \<noteq> 34
   \<and> string_char (quote_char c @ r) = Some (c, False, r)"
proof -
  consider (esc) "code c = 8 \<or> code c = 9 \<or> code c = 10 \<or> code c = 12 \<or> code c = 13
      \<or> code c = 34 \<or> code c = 92"
    | (ctl) "code c < 32" "code c \<noteq> 8" "code c \<noteq> 9" "code c \<noteq> 10" "code c \<noteq> 12" "code c \<noteq> 13"
    | (plain) "32 \<le> code c" "code c \<noteq> 34" "code c \<noteq> 92"
    by (cases "code c < 32") auto
  then show ?thesis
  proof cases
    case esc
    from escaped_char [OF esc] show ?thesis
      by (auto simp: quote_char_def string_char_def unescape_def code_def Let_def)
  next
    case ctl
    then have q: "quote_char c = [CHR 0x5C, CHR ''u'', CHR ''0'', CHR ''0'',
        digit_char (code c div 16), digit_char (code c mod 16)]"
      by (simp add: quote_char_def code_def Let_def)
    from ctl(1) have h: "hex4 (CHR ''0'') (CHR ''0'') (digit_char (code c div 16))
        (digit_char (code c mod 16)) = Some (code c)"
      by (intro hex4_byte) simp
    have u: "code (CHR 0x5C) = 92" "code (CHR ''u'') = 117" by (simp_all add: code_def)
    have cc: "char_of (code c) = c" by (simp add: code_def)
    from ctl(1) have lt: "code c < 256" by simp
    show ?thesis
      using lt by (simp add: q string_char_def u h cc)
  next
    case plain
    then show ?thesis
      by (simp add: quote_char_def string_char_def code_def Let_def)
  qed
qed

lemma lex_string_quoted:
  "lex_string (concat (map quote_char s) @ CHR 0x22 # rest) = Some (s, False, rest)"
proof (induction s)
  case Nil
  show ?case by (simp add: lex_string.simps code_def)
next
  case (Cons c s)
  let ?r = "concat (map quote_char s) @ CHR 0x22 # rest"
  note q = string_char_quote_char [of c ?r]
  from q obtain x xs where eq: "quote_char c = x # xs" by (cases "quote_char c") auto
  from q eq have x: "code x \<noteq> 34" by simp
  have "lex_string (concat (map quote_char (c # s)) @ CHR 0x22 # rest) = lex_string (x # (xs @ ?r))"
    by (simp add: eq)
  also have "\<dots> = (case string_char (x # (xs @ ?r)) of
           None \<Rightarrow> None
         | Some r \<Rightarrow> map_option (add_char (fst r) (fst (snd r))) (lex_string (snd (snd r))))"
    using x by (simp only: lex_string.simps if_False)
  also have "string_char (x # (xs @ ?r)) = Some (c, False, ?r)" using q by (simp add: eq)
  finally show ?case using Cons.IH by (simp add: add_char_def)
qed

lemma lex_quote: "lex (quote s @ rest) = add_token (TString s) False (lex rest)"
proof -
  have "lex (quote s @ rest) = lex (CHR 0x22 # (concat (map quote_char s) @ CHR 0x22 # rest))"
    by (simp add: quote_def)
  also have "\<dots> = (case lex_string (concat (map quote_char s) @ CHR 0x22 # rest) of
           None \<Rightarrow> None
         | Some r \<Rightarrow> add_token (TString (fst r)) (fst (snd r)) (lex (snd (snd r))))"
    by (subst lex.simps) (simp add: is_space_def code_def)
  finally show ?thesis by (simp add: lex_string_quoted)
qed

subsection \<open>The tokens of a value\<close>

lemma add_tokens_simps:
  "add_tokens [] r = r"
  "add_token t False (add_tokens ts r) = add_tokens (t # ts) r"
  "add_tokens ts (add_tokens us r) = add_tokens (ts @ us) r"
  "add_token t False r = add_tokens [t] r"
  by (cases r; simp add: add_tokens_def add_token_def)+

lemma lex_punct:
  "lex (CHR ''['' # cs) = add_tokens [TLBracket] (lex cs)"
  "lex (CHR '']'' # cs) = add_tokens [TRBracket] (lex cs)"
  "lex (CHR ''{'' # cs) = add_tokens [TLBrace] (lex cs)"
  "lex (CHR ''}'' # cs) = add_tokens [TRBrace] (lex cs)"
  "lex (CHR '','' # cs) = add_tokens [TComma] (lex cs)"
  "lex (CHR '':'' # cs) = add_tokens [TColon] (lex cs)"
  by (subst lex.simps; simp add: is_space_def code_def add_tokens_simps(4))+

lemma lex_words:
  "lex (''null'' @ cs) = add_tokens [TNull] (lex cs)"
  "lex (''true'' @ cs) = add_tokens [TTrue] (lex cs)"
  "lex (''false'' @ cs) = add_tokens [TFalse] (lex cs)"
  by (simp; subst lex.simps; simp add: is_space_def code_def number_char_def is_digit_def add_tokens_simps(4))+

lemma boundary_simps:
  "boundary (CHR '']'' # cs)" "boundary (CHR ''}'' # cs)" "boundary (CHR '','' # cs)" "boundary []"
  by (simp_all add: boundary_def number_char_def is_digit_def code_def)

lemma join_Cons: "join sep (x # xs) = (if xs = [] then x else x @ sep @ join sep xs)"
  by (cases xs) simp_all

lemma safe_stringify: "json_safe v \<Longrightarrow> \<exists>s. JSON_stringify v = Some s"
  by (cases v) simp_all

lemma stringify_elements_Nil: "stringify_elements xs = [] \<longleftrightarrow> xs = []"
  by (cases xs) simp_all

lemma stringify_members_Nil: "safe_members ps \<Longrightarrow> stringify_members ps = [] \<longleftrightarrow> ps = []"
  by (cases ps) (auto dest: safe_stringify)

lemma lex_value:
  "json_safe v \<Longrightarrow> boundary rest \<Longrightarrow>
     lex (the (JSON_stringify v) @ rest) = add_tokens (tokens_of v) (lex rest)"
  and lex_elems:
  "safe_elements xs \<Longrightarrow> boundary rest \<Longrightarrow>
     lex (join '','' (stringify_elements xs) @ rest) = add_tokens (elems_tokens xs) (lex rest)"
  and lex_members:
  "safe_members ps \<Longrightarrow> boundary rest \<Longrightarrow>
     lex (join '','' (stringify_members ps) @ rest) = add_tokens (members_tokens ps) (lex rest)"
proof (induction v and xs and ps arbitrary: rest and rest and rest
    rule: tokens_of_elems_tokens_members_tokens.induct)
  case (1 b)
  then show ?case using lex_words(2,3) by (cases b) simp_all
next
  case (2 n)
  then show ?case by (simp add: lex_dec_int add_tokens_simps)
next
  case (3 s)
  then show ?case by (simp add: lex_quote add_tokens_simps)
next
  case (4 xs)
  from "4.prems" have s: "safe_elements xs" by simp
  have "lex (the (JSON_stringify (JArr xs)) @ rest)
      = lex (CHR ''['' # (join '','' (stringify_elements xs) @ CHR '']'' # rest))" by simp
  also have "\<dots> = add_tokens [TLBracket] (add_tokens (elems_tokens xs) (lex (CHR '']'' # rest)))"
    by (simp only: lex_punct "4.IH" [OF s boundary_simps(1)])
  finally show ?case by (simp add: lex_punct add_tokens_simps)
next
  case (5 ps)
  from "5.prems" have s: "safe_members ps" by simp
  have "lex (the (JSON_stringify (JObj ps)) @ rest)
      = lex (CHR ''{'' # (join '','' (stringify_members ps) @ CHR ''}'' # rest))" by simp
  also have "\<dots> = add_tokens [TLBrace] (add_tokens (members_tokens ps) (lex (CHR ''}'' # rest)))"
    by (simp only: lex_punct "5.IH" [OF s boundary_simps(2)])
  finally show ?case by (simp add: lex_punct add_tokens_simps)
next
  case 6
  then show ?case by simp
next
  case 7
  then show ?case using lex_words(1) by simp
next
  case 8
  then show ?case by simp
next
  case (9 b)
  then show ?case by simp
next
  case 10
  then show ?case by (simp add: add_tokens_simps)
next
  case (11 x)
  then obtain s where s: "JSON_stringify x = Some s" using safe_stringify [of x] by auto
  from 11 show ?case by (simp add: s)
next
  case (12 x y ys)
  then obtain s where s: "JSON_stringify x = Some s" using safe_stringify [of x] by auto
  from "12.prems" have sx: "json_safe x" and sy: "safe_elements (y # ys)" by simp_all
  have "lex (join '','' (stringify_elements (x # y # ys)) @ rest)
      = lex (the (JSON_stringify x) @ CHR '','' # (join '','' (stringify_elements (y # ys)) @ rest))"
    by (simp add: s)
  also have "\<dots> = add_tokens (tokens_of x)
       (add_tokens [TComma] (add_tokens (elems_tokens (y # ys)) (lex rest)))"
    by (simp only: "12.IH"(1) [OF sx boundary_simps(3)] lex_punct "12.IH"(2) [OF sy "12.prems"(2)])
  finally show ?case by (simp add: add_tokens_simps)
next
  case 13
  then show ?case by (simp add: add_tokens_simps)
next
  case (14 p)
  then obtain s where s: "JSON_stringify (snd p) = Some s" using safe_stringify [of "snd p"] by auto
  from "14.prems" have sp: "json_safe (snd p)" by simp
  have "lex (join '','' (stringify_members [p]) @ rest)
      = lex (quote (fst p) @ CHR '':'' # (the (JSON_stringify (snd p)) @ rest))"
    by (simp add: s)
  also have "\<dots> = add_tokens [TString (fst p)] (add_tokens [TColon]
       (add_tokens (tokens_of (snd p)) (lex rest)))"
    by (simp only: lex_quote lex_punct add_tokens_simps(4) "14.IH" [OF sp "14.prems"(2)])
  finally show ?case by (simp add: add_tokens_simps)
next
  case (15 p q ps)
  then obtain s where s: "JSON_stringify (snd p) = Some s" using safe_stringify [of "snd p"] by auto
  from "15.prems" have sp: "json_safe (snd p)" and sq: "safe_members (q # ps)" by simp_all
  define ms where "ms = stringify_members (q # ps)"
  from sq have ne: "ms \<noteq> []" using stringify_members_Nil [OF sq] by (simp add: ms_def)
  have m1: "stringify_members (p # q # ps) = (quote (fst p) @ '':'' @ s) # ms"
    unfolding ms_def using s by simp
  have m2: "join '','' ((quote (fst p) @ '':'' @ s) # ms)
      = (quote (fst p) @ '':'' @ s) @ '','' @ join '','' ms"
    using ne by (simp add: join_Cons)
  have "lex (join '','' (stringify_members (p # q # ps)) @ rest)
      = lex (quote (fst p) @ CHR '':'' # (the (JSON_stringify (snd p))
           @ CHR '','' # (join '','' (stringify_members (q # ps)) @ rest)))"
    unfolding m1 m2 by (simp add: s ms_def)
  also have "\<dots> = add_tokens [TString (fst p)] (add_tokens [TColon]
       (add_tokens (tokens_of (snd p)) (add_tokens [TComma]
          (add_tokens (members_tokens (q # ps)) (lex rest)))))"
    by (simp only: lex_quote lex_punct add_tokens_simps(4) "15.IH"(1) [OF sp boundary_simps(3)]
          "15.IH"(2) [OF sq "15.prems"(2)])
  finally show ?case by (simp add: add_tokens_simps)
qed

subsection \<open>The machine on the tokens of a value\<close>

lemma prun_Cons: "prun s (t # ts) = (case pstep s t of None \<Rightarrow> None | Some s' \<Rightarrow> prun s' ts)"
  by simp

lemma pstep_value:
  assumes "m = MValue \<or> m = MValueOrClose" and "t \<noteq> TRBracket"
  shows "pstep (m, st) t = start_value t st"
  using assms by (auto simp: pstep_def)

lemma pstep_simps:
  "pstep (MValueOrClose, FArr es # st) TRBracket = complete (JArr es) st"
  "pstep (MAfter, FArr es # st) TRBracket = complete (JArr es) st"
  "pstep (MAfter, FArr es # st) TComma = Some (MValue, FArr es # st)"
  "pstep (MKeyOrClose, FObj ps # st) TRBrace = complete (JObj ps) st"
  "pstep (MAfter, FObj ps # st) TRBrace = complete (JObj ps) st"
  "pstep (MAfter, FObj ps # st) TComma = Some (MKey, FObj ps # st)"
  "pstep (MKeyOrClose, FObj ps # st) (TString k) = Some (MColon, FKey ps k # st)"
  "pstep (MKey, FObj ps # st) (TString k) = Some (MColon, FKey ps k # st)"
  "pstep (MColon, st) TColon = Some (MValue, st)"
  by (simp_all add: pstep_def)

lemma machine_value:
  "json_safe v \<Longrightarrow> m = MValue \<or> m = MValueOrClose \<Longrightarrow>
     prun (m, st) (tokens_of v @ ts) = (case complete v st of None \<Rightarrow> None | Some s' \<Rightarrow> prun s' ts)"
  and machine_elems:
  "safe_elements xs \<Longrightarrow> xs \<noteq> [] \<Longrightarrow> m = MValue \<or> m = MValueOrClose \<Longrightarrow>
     prun (m, FArr es # st) (elems_tokens xs @ ts) = prun (MAfter, FArr (es @ xs) # st) ts"
  and machine_members:
  "safe_members ps \<Longrightarrow> ps \<noteq> [] \<Longrightarrow> m = MKey \<or> m = MKeyOrClose \<Longrightarrow>
     prun (m, FObj acc # st) (members_tokens ps @ ts)
       = prun (MAfter, FObj (foldl put_prop acc ps) # st) ts"
proof (induction v and xs and ps arbitrary: m st ts and m es st ts and m acc st ts
    rule: tokens_of_elems_tokens_members_tokens.induct)
  case (1 b)
  then show ?case by (cases b) (simp_all add: pstep_value)
next
  case (2 n)
  then show ?case by (simp add: pstep_value)
next
  case (3 s)
  then show ?case by (simp add: pstep_value)
next
  case (4 xs)
  from "4.prems" have s: "safe_elements xs" by simp
  have start: "pstep (m, st) TLBracket = Some (MValueOrClose, FArr [] # st)"
    using "4.prems"(2) by (simp add: pstep_value)
  show ?case
  proof (cases "xs = []")
    case True
    then show ?thesis by (simp add: start pstep_simps)
  next
    case False
    have "prun (m, st) (tokens_of (JArr xs) @ ts)
        = prun (MValueOrClose, FArr [] # st) (elems_tokens xs @ TRBracket # ts)"
      by (simp add: start)
    also have "\<dots> = prun (MAfter, FArr ([] @ xs) # st) (TRBracket # ts)"
      by (rule "4.IH" [OF s False]) simp
    finally show ?thesis by (simp add: pstep_simps)
  qed
next
  case (5 ps)
  from "5.prems" have s: "safe_members ps" and c: "foldl put_prop [] ps = ps"
    by (simp_all add: copy_props_def)
  have start: "pstep (m, st) TLBrace = Some (MKeyOrClose, FObj [] # st)"
    using "5.prems"(2) by (simp add: pstep_value)
  show ?case
  proof (cases "ps = []")
    case True
    then show ?thesis by (simp add: start pstep_simps)
  next
    case False
    have "prun (m, st) (tokens_of (JObj ps) @ ts)
        = prun (MKeyOrClose, FObj [] # st) (members_tokens ps @ TRBrace # ts)"
      by (simp add: start)
    also have "\<dots> = prun (MAfter, FObj (foldl put_prop [] ps) # st) (TRBrace # ts)"
      by (rule "5.IH" [OF s False]) simp
    finally show ?thesis by (simp add: pstep_simps c)
  qed
next
  case 6
  then show ?case by simp
next
  case 7
  then show ?case by (simp add: pstep_value)
next
  case 8
  then show ?case by simp
next
  case (9 b)
  then show ?case by simp
next
  case 10
  then show ?case by simp
next
  case (11 x)
  from "11.prems" have sx: "json_safe x" by simp
  show ?case using "11.IH" [OF sx "11.prems"(3), of "FArr es # st" ts] by simp
next
  case (12 x y ys)
  from "12.prems" have sx: "json_safe x" and sy: "safe_elements (y # ys)" by simp_all
  have "prun (m, FArr es # st) (elems_tokens (x # y # ys) @ ts)
      = prun (m, FArr es # st) (tokens_of x @ TComma # elems_tokens (y # ys) @ ts)" by simp
  also have "\<dots> = prun (MAfter, FArr (es @ [x]) # st) (TComma # elems_tokens (y # ys) @ ts)"
    using "12.IH"(1) [OF sx "12.prems"(3), of "FArr es # st"] by simp
  also have "\<dots> = prun (MValue, FArr (es @ [x]) # st) (elems_tokens (y # ys) @ ts)"
    by (simp add: pstep_simps)
  also have "\<dots> = prun (MAfter, FArr ((es @ [x]) @ y # ys) # st) ts"
    by (rule "12.IH"(2) [OF sy]) simp_all
  finally show ?case by simp
next
  case 13
  then show ?case by simp
next
  case (14 p)
  from "14.prems" have sp: "json_safe (snd p)" by simp
  have "prun (m, FObj acc # st) (members_tokens [p] @ ts)
      = prun (MValue, FKey acc (fst p) # st) (tokens_of (snd p) @ ts)"
    using "14.prems"(3) by (auto simp: pstep_simps)
  also have "\<dots> = prun (MAfter, FObj (put_prop acc p) # st) ts"
    using "14.IH" [OF sp, of MValue "FKey acc (fst p) # st" ts] by (simp add: put_prop_def)
  finally show ?case by simp
next
  case (15 p q ps)
  from "15.prems" have sp: "json_safe (snd p)" and sq: "safe_members (q # ps)" by simp_all
  have "prun (m, FObj acc # st) (members_tokens (p # q # ps) @ ts)
      = prun (MValue, FKey acc (fst p) # st)
          (tokens_of (snd p) @ TComma # members_tokens (q # ps) @ ts)"
    using "15.prems"(3) by (auto simp: pstep_simps)
  also have "\<dots> = prun (MAfter, FObj (put_prop acc p) # st)
          (TComma # members_tokens (q # ps) @ ts)"
    using "15.IH"(1) [OF sp, of MValue "FKey acc (fst p) # st"] by (simp add: put_prop_def)
  also have "\<dots> = prun (MKey, FObj (put_prop acc p) # st) (members_tokens (q # ps) @ ts)"
    by (simp add: pstep_simps)
  also have "\<dots> = prun (MAfter, FObj (foldl put_prop (put_prop acc p) (q # ps)) # st) ts"
    by (rule "15.IH"(2) [OF sq]) simp_all
  finally show ?case by simp
qed

lemma parse_stringify:
  assumes "json_safe v"
  shows "JSON_parse (the (JSON_stringify v)) = Parsed v"
proof -
  have "lex (the (JSON_stringify v) @ []) = add_tokens (tokens_of v) (lex [])"
    by (rule lex_value [OF assms boundary_simps(4)])
  then have l: "lex (the (JSON_stringify v)) = Some (tokens_of v, False)"
    by (simp add: add_tokens_def)
  have "prun (MValue, []) (tokens_of v @ []) = (case complete v [] of None \<Rightarrow> None | Some s' \<Rightarrow> prun s' [])"
    by (rule machine_value [OF assms]) simp
  then have r: "prun (MValue, []) (tokens_of v) = Some (MDone v, [])" by simp
  show ?thesis by (simp add: JSON_parse_def l r)
qed

lemma stringify_inject:
  assumes "json_safe v" and "json_safe w" and "JSON_stringify v = JSON_stringify w"
  shows "v = w"
proof -
  have "Parsed v = JSON_parse (the (JSON_stringify v))" using parse_stringify [OF assms(1)] by simp
  also have "\<dots> = Parsed w" using parse_stringify [OF assms(2)] assms(3) by simp
  finally show ?thesis by simp
qed

section \<open>Properties of the spread\<close>





lemma distinct_define_prop:
  assumes "distinct (map fst ps)"
  shows "distinct (map fst (define_prop ps k v))"
proof (cases "k \<in> set (map fst ps)")
  case True
  have e: "map fst (map (\<lambda>p. if fst p = k then (k, v) else p) ps) = map fst ps"
    by (induction ps) auto
  from True have d: "define_prop ps k v = map (\<lambda>p. if fst p = k then (k, v) else p) ps"
    by (simp add: define_prop_def)
  show ?thesis by (simp only: d e assms)
next
  case False
  have mid: "distinct (map fst (takeWhile P ps @ (k, v) # dropWhile P ps))" for P
  proof -
    from assms have d: "distinct (map fst (takeWhile P ps) @ map fst (dropWhile P ps))"
      by (simp flip: map_append)
    from False have n: "k \<notin> set (map fst (takeWhile P ps) @ map fst (dropWhile P ps))"
      by (simp flip: map_append)
    from d n show ?thesis by auto
  qed
  from False assms have app: "distinct (map fst (ps @ [(k, v)]))" by simp
  show ?thesis
  proof (cases "array_index k")
    case None
    with False app show ?thesis by (simp add: define_prop_def)
  next
    case (Some n)
    with False mid show ?thesis by (simp add: define_prop_def)
  qed
qed


lemma distinct_foldl_put_prop:
  "distinct (map fst acc) \<Longrightarrow> distinct (map fst (foldl put_prop acc qs))"
  by (induction qs arbitrary: acc) (simp_all add: put_prop_def distinct_define_prop)



lemma keys_distinct_spread2: "keys_distinct (spread2 a b)"
  by (simp add: keys_distinct_def spread2_def copy_props_def distinct_foldl_put_prop)





subsection \<open>What the parser returns has distinct keys\<close>


lemma state_ok_intro: "list_all frame_ok st \<Longrightarrow> \<forall>v. m \<noteq> MDone v \<Longrightarrow> state_ok (m, st)"
  by (cases m) simp_all









section \<open>Properties of the history hook\<close>



lemma undo_empty: "past h = [] \<Longrightarrow> undo h = h"
  by (simp add: undo_def)

lemma redo_empty: "future h = [] \<Longrightarrow> redo h = h"
  by (simp add: redo_def)



lemma set_push:
  "JSON_stringify v \<noteq> JSON_stringify (present h) \<Longrightarrow>
   setState (Literal v) h = \<lparr>past = past h @ [present h], present = v, future = []\<rparr>"
  by (simp add: setState_def resolve_def)


text \<open>
  C3, as the code has it: a \<open>set\<close> whose value serializes differently from the present
  document empties \<open>future\<close>; a \<open>set\<close> stopped by the equality gate returns the state
  it was given, so \<open>future\<close> stays as it was.
\<close>

theorem setState_future:
  "(JSON_stringify (resolve a (present h)) \<noteq> JSON_stringify (present h)
      \<longrightarrow> future (setState a h) = [])
   \<and> (JSON_stringify (resolve a (present h)) = JSON_stringify (present h)
      \<longrightarrow> future (setState a h) = future h)"
  by (simp add: setState_def)

theorem setState_future_witness:
  "future (setState (Literal (JStr ''b'')) \<lparr>past = [], present = JStr ''a'', future = [JStr ''c'']\<rparr>) = []
   \<and> future (setState (Literal (JStr ''a'')) \<lparr>past = [], present = JStr ''a'', future = [JStr ''c'']\<rparr>)
       = [JStr ''c'']"
  using setState_future [of "Literal (JStr ''b'')" "\<lparr>past = [], present = JStr ''a'', future = [JStr ''c'']\<rparr>"]
        setState_future [of "Literal (JStr ''a'')" "\<lparr>past = [], present = JStr ''a'', future = [JStr ''c'']\<rparr>"]
  by (simp add: resolve_def quote_def quote_char_def code_def)

text \<open>
  C3 as stated fails after an undo: setting the document that is already present
  leaves the redo stack in place.
\<close>

theorem setState_future_counterexample:
  "future (setState (Literal DEFAULT_DESIGN)
     (undo (setState (Literal (JObj [])) \<lparr>past = [], present = DEFAULT_DESIGN, future = []\<rparr>)))
   \<noteq> []"
  by (simp add: setState_def resolve_def undo_def DEFAULT_DESIGN_def)

text \<open>
  C4: \<open>undo\<close> on an empty \<open>past\<close> and \<open>redo\<close> on an empty \<open>future\<close> return the state
  unchanged, however often they are called.  Both are total functions: nothing is
  read out of range.
\<close>

theorem undo_redo_underflow:
  "(past h = [] \<longrightarrow> (undo ^^ n) h = h) \<and> (future h = [] \<longrightarrow> (redo ^^ n) h = h)"
  by (induction n) (simp_all add: undo_empty redo_empty)

theorem undo_redo_underflow_witness:
  "(undo ^^ 3) \<lparr>past = [], present = DEFAULT_DESIGN, future = [JNull]\<rparr>
     = \<lparr>past = [], present = DEFAULT_DESIGN, future = [JNull]\<rparr>
   \<and> (redo ^^ 3) \<lparr>past = [JNull], present = DEFAULT_DESIGN, future = []\<rparr>
     = \<lparr>past = [JNull], present = DEFAULT_DESIGN, future = []\<rparr>"
  using undo_redo_underflow [of "\<lparr>past = [], present = DEFAULT_DESIGN, future = [JNull]\<rparr>" 3]
        undo_redo_underflow [of "\<lparr>past = [JNull], present = DEFAULT_DESIGN, future = []\<rparr>" 3]
  by simp

lemma undo_redo_timeline_aux:
  "past h \<noteq> [] \<Longrightarrow> timeline (undo h) = timeline h"
  "future h \<noteq> [] \<Longrightarrow> timeline (redo h) = timeline h"
proof -
  assume ne: "past h \<noteq> []"
  then have "take (length (past h) - 1) (past h) @ [past h ! (length (past h) - 1)] = past h"
    by (metis append_butlast_last_id butlast_conv_take last_conv_nth)
  then show "timeline (undo h) = timeline h"
    using ne by (simp add: timeline_def undo_def Let_def)
next
  assume ne: "future h \<noteq> []"
  then have "future h ! 0 # drop 1 (future h) = future h"
    by (cases "future h") simp_all
  then show "timeline (redo h) = timeline h"
    using ne by (simp add: timeline_def redo_def Let_def)
qed

text \<open>
  C10: where \<open>undo\<close> and \<open>redo\<close> act, the sequence \<open>past @ [present] @ future\<close> is the
  same before and after; the present document moves by one position.
\<close>

theorem undo_redo_timeline:
  "(past h \<noteq> [] \<longrightarrow>
      timeline (undo h) = timeline h \<and> Suc (length (past (undo h))) = length (past h))
   \<and> (future h \<noteq> [] \<longrightarrow>
      timeline (redo h) = timeline h \<and> length (past (redo h)) = Suc (length (past h)))"
  by (simp add: undo_redo_timeline_aux) (simp add: undo_def redo_def Let_def)

theorem undo_redo_timeline_witness:
  "timeline (undo \<lparr>past = [JNum 1, JNum 2], present = JNum 3, future = [JNum 4]\<rparr>)
     = [JNum 1, JNum 2, JNum 3, JNum 4]
   \<and> past (undo \<lparr>past = [JNum 1, JNum 2], present = JNum 3, future = [JNum 4]\<rparr>) = [JNum 1]
   \<and> timeline (redo \<lparr>past = [JNum 1, JNum 2], present = JNum 3, future = [JNum 4]\<rparr>)
     = [JNum 1, JNum 2, JNum 3, JNum 4]
   \<and> past (redo \<lparr>past = [JNum 1, JNum 2], present = JNum 3, future = [JNum 4]\<rparr>)
     = [JNum 1, JNum 2, JNum 3]"
  using undo_redo_timeline [of "\<lparr>past = [JNum 1, JNum 2], present = JNum 3, future = [JNum 4]\<rparr>"]
  by (simp add: timeline_def undo_def redo_def)

subsection \<open>Neighbouring documents of a reachable history differ\<close>

text \<open>
  The initial history has one document, and \<open>set\<close>, \<open>undo\<close> and \<open>redo\<close> keep
  neighbouring documents apart in their texts.  Hence every call that changes the
  history changes the text, and so the value, of the present document: the persistence
  effect, which runs when \<open>present\<close> is another object, is the one that runs when
  \<open>present\<close> is another value.
\<close>

lemma distinct_adj_mid: "distinct_adj (xs @ a # b # ys) \<Longrightarrow> a \<noteq> b"
  by (auto simp: distinct_adj_append_iff)

lemma gated_setState:
  assumes "gated h"
  shows "gated (setState x h)
    \<and> (setState x h \<noteq> h \<longrightarrow> JSON_stringify (present (setState x h)) \<noteq> JSON_stringify (present h))"
proof (cases "JSON_stringify (resolve x (present h)) = JSON_stringify (present h)")
  case True
  with assms show ?thesis by (simp add: setState_def)
next
  case False
  from assms have "distinct_adj (map JSON_stringify (past h @ [present h]) @ map JSON_stringify (future h))"
    by (simp add: gated_def timeline_def)
  then have "distinct_adj (map JSON_stringify (past h @ [present h]))"
    by (rule distinct_adj_appendD1)
  with False show ?thesis
    by (simp add: setState_def gated_def timeline_def distinct_adj_append_iff eq_commute)
qed

lemma gated_undo:
  assumes "gated h"
  shows "gated (undo h)
    \<and> (undo h \<noteq> h \<longrightarrow> JSON_stringify (present (undo h)) \<noteq> JSON_stringify (present h))"
proof (cases "past h = []")
  case True
  with assms show ?thesis by (simp add: undo_empty)
next
  case False
  then obtain ps x where p: "past h = ps @ [x]" by (meson rev_exhaust)
  from False have t: "timeline (undo h) = timeline h"
    using undo_redo_timeline_aux(1) by simp
  from p have "present (undo h) = x" by (simp add: undo_def)
  moreover from assms p have "JSON_stringify x \<noteq> JSON_stringify (present h)"
    using distinct_adj_mid [of "map JSON_stringify ps" "JSON_stringify x" "JSON_stringify (present h)"
        "map JSON_stringify (future h)"]
    by (simp add: gated_def timeline_def)
  ultimately show ?thesis using assms t by (simp add: gated_def)
qed

lemma gated_redo:
  assumes "gated h"
  shows "gated (redo h)
    \<and> (redo h \<noteq> h \<longrightarrow> JSON_stringify (present (redo h)) \<noteq> JSON_stringify (present h))"
proof (cases "future h")
  case Nil
  with assms show ?thesis by (simp add: redo_empty)
next
  case (Cons y fs)
  then have t: "timeline (redo h) = timeline h"
    using undo_redo_timeline_aux(2) by simp
  from Cons have "present (redo h) = y" by (simp add: redo_def)
  moreover from assms Cons have "JSON_stringify (present h) \<noteq> JSON_stringify y"
    using distinct_adj_mid [of "map JSON_stringify (past h)" "JSON_stringify (present h)"
        "JSON_stringify y" "map JSON_stringify fs"]
    by (simp add: gated_def timeline_def)
  ultimately show ?thesis using assms t by (simp add: gated_def eq_commute)
qed

lemma reachable_texts_differ:
  "gated \<lparr>past = [], present = d, future = []\<rparr>
   \<and> (gated h \<longrightarrow> gated (reducer a h)
        \<and> (reducer a h \<noteq> h \<longrightarrow>
              JSON_stringify (present (reducer a h)) \<noteq> JSON_stringify (present h)))"
  using gated_setState gated_undo gated_redo
  by (cases a) (simp_all add: reducer_def gated_def timeline_def)

lemma reachable_texts_differ_example:
  "gated \<lparr>past = [JStr ''a''], present = JStr ''b'', future = []\<rparr>
   \<and> gated (reducer Undo \<lparr>past = [JStr ''a''], present = JStr ''b'', future = []\<rparr>)
   \<and> JSON_stringify (present (reducer Undo \<lparr>past = [JStr ''a''], present = JStr ''b'', future = []\<rparr>))
       \<noteq> JSON_stringify (JStr ''b'')"
proof -
  have g: "gated \<lparr>past = [JStr ''a''], present = JStr ''b'', future = []\<rparr>"
    by (simp add: gated_def timeline_def quote_def quote_char_def code_def)
  have n: "reducer Undo \<lparr>past = [JStr ''a''], present = JStr ''b'', future = []\<rparr>
      \<noteq> \<lparr>past = [JStr ''a''], present = JStr ''b'', future = []\<rparr>"
    by (simp add: reducer_def undo_def)
  from reachable_texts_differ [of undefined "\<lparr>past = [JStr ''a''], present = JStr ''b'', future = []\<rparr>" Undo]
    g n show ?thesis by simp
qed

section \<open>Properties of the keyboard handler\<close>



section \<open>The formatted-text renderer on the test vectors\<close>

text \<open>A text without an asterisk is one plain segment, whatever else it holds.\<close>

lemma match_at_other: "c \<noteq> CHR ''*'' \<Longrightarrow> match_at (c # cs) = None"
  by (simp add: match_at_def)

lemma split_loop_plain: "CHR ''*'' \<notin> set s \<Longrightarrow> split_loop acc s = [acc @ s]"
proof (induction s arbitrary: acc)
  case Nil
  show ?case by simp
next
  case (Cons c cs)
  then have "c \<noteq> CHR ''*''" and "CHR ''*'' \<notin> set cs" by auto
  with Cons.IH [of "acc @ [c]"] show ?case by (simp add: match_at_other)
qed

lemma render_part_plain: "CHR ''*'' \<notin> set part \<Longrightarrow> render_part p s part = Plain part"
  by (cases part) (auto simp: render_part_def startsWith_def)

lemma renderFormattedText_plain:
  assumes "text \<noteq> []" and "CHR ''*'' \<notin> set text"
  shows "renderFormattedText text p s = Some [Plain text]"
  using assms by (simp add: renderFormattedText_def split_loop_plain render_part_plain)

lemma renderFormattedText_plain_example:
  "renderFormattedText ''Dashboard Overview'' ''#3b82f6'' ''#10b981'' = Some [Plain ''Dashboard Overview'']"
  using renderFormattedText_plain [of "''Dashboard Overview''" "''#3b82f6''" "''#10b981''"]
  by simp

text \<open>
  C7: the renderer on the vectors of the specification.  The first four are as stated
  (a match at the start or the end of the text leaves an empty plain string beside
  it).  On \<open>**oops\<close> the second alternative matches the two asterisks as a run with
  nothing inside; the part \<open>**\<close> is then taken for a bold run and cut to the empty
  string, so the two asterisks are not shown.
\<close>

theorem renderFormattedText_vectors:
  "renderFormattedText ''plain'' p s = Some [Plain ''plain'']
   \<and> renderFormattedText ''**bold**'' p s = Some [Plain '''', Strong p ''bold'', Plain '''']
   \<and> renderFormattedText ''*it*'' p s = Some [Plain '''', Em s ''it'', Plain '''']
   \<and> renderFormattedText ''a **b** c *d* e'' p s
       = Some [Plain ''a '', Strong p ''b'', Plain '' c '', Em s ''d'', Plain '' e'']
   \<and> renderFormattedText '''' p s = None
   \<and> renderFormattedText ''**oops'' p s = Some [Plain '''', Strong p '''', Plain ''oops'']
   \<and> concat (map segment_text (the (renderFormattedText ''**oops'' p s))) = ''oops''"
  by (simp add: renderFormattedText_def match_at_def render_part_def startsWith_def
      endsWith_def slice_def line_terminator_def)

section \<open>The equality gate of \<open>setState\<close>\<close>

lemma default_columns_same: "with_prop DEFAULT_DESIGN ''gridColumns'' (JNum 3) = DEFAULT_DESIGN"
  by code_simp

lemma default_columns_changed:
  "JSON_stringify (with_prop DEFAULT_DESIGN ''gridColumns'' (JNum 4)) \<noteq> JSON_stringify DEFAULT_DESIGN"
  by code_simp

lemma default_safe: "json_safe DEFAULT_DESIGN"
  by code_simp

lemma nan_inf_same_text:
  "JSON_stringify (with_prop DEFAULT_DESIGN ''baseFontSize'' (JInfinity True))
     = JSON_stringify (with_prop DEFAULT_DESIGN ''baseFontSize'' JNaN)"
  by code_simp

lemma nan_inf_differ:
  "with_prop DEFAULT_DESIGN ''baseFontSize'' (JInfinity True)
     \<noteq> with_prop DEFAULT_DESIGN ''baseFontSize'' JNaN"
  by code_simp

lemma reversed_text_differs:
  "JSON_stringify (JObj (rev (own_props DEFAULT_DESIGN))) \<noteq> JSON_stringify DEFAULT_DESIGN"
  by code_simp

text \<open>
  C1, as the code has it.  \<open>set\<close> compares the new value with the present document by
  their \<open>JSON.stringify\<close> texts.  When the texts are equal (as they are when the value
  is the present document itself) the history is returned as it was and the
  persistence effect does not run; when they differ the present document is pushed onto
  \<open>past\<close>, the value becomes \<open>present\<close> and \<open>future\<close> is emptied.  For values that
  JSON carries unchanged the texts are equal only when the values are.
\<close>

theorem setState_gate:
  assumes "v = resolve a (present (hist s))"
  shows "(JSON_stringify v = JSON_stringify (present (hist s)) \<longrightarrow>
            setState a (hist s) = hist s \<and> dispatch k (Set a) s = s)
       \<and> (v = present (hist s) \<longrightarrow> setState a (hist s) = hist s \<and> dispatch k (Set a) s = s)
       \<and> (JSON_stringify v \<noteq> JSON_stringify (present (hist s)) \<longrightarrow>
            setState a (hist s)
              = \<lparr>past = past (hist s) @ [present (hist s)], present = v, future = []\<rparr>)
       \<and> (json_safe v \<and> json_safe (present (hist s)) \<longrightarrow>
            (JSON_stringify v = JSON_stringify (present (hist s)) \<longleftrightarrow> v = present (hist s)))"
proof (intro conjI impI)
  assume eq: "JSON_stringify v = JSON_stringify (present (hist s))"
  with assms show noop: "setState a (hist s) = hist s" by (simp add: setState_def)
  then show "dispatch k (Set a) s = s" by (simp add: dispatch_def reducer_def)
next
  assume "v = present (hist s)"
  with assms show noop: "setState a (hist s) = hist s" by (simp add: setState_def)
  then show "dispatch k (Set a) s = s" by (simp add: dispatch_def reducer_def)
next
  assume "JSON_stringify v \<noteq> JSON_stringify (present (hist s))"
  with assms show "setState a (hist s)
      = \<lparr>past = past (hist s) @ [present (hist s)], present = v, future = []\<rparr>"
    by (simp add: setState_def)
next
  assume "json_safe v \<and> json_safe (present (hist s))"
  then show "(JSON_stringify v = JSON_stringify (present (hist s))) = (v = present (hist s))"
    by (auto dest: stringify_inject)
qed

theorem setState_gate_witness:
  "dispatch STORAGE_KEY (Set (Updater (\<lambda>p. with_prop p ''gridColumns'' (JNum 3))))
      \<lparr>hist = \<lparr>past = [], present = DEFAULT_DESIGN, future = []\<rparr>,
        store = \<lparr>items = Map.empty, denied = False, full = False\<rparr>, saves = 1\<rparr>
     = \<lparr>hist = \<lparr>past = [], present = DEFAULT_DESIGN, future = []\<rparr>,
        store = \<lparr>items = Map.empty, denied = False, full = False\<rparr>, saves = 1\<rparr>
   \<and> setState (Updater (\<lambda>p. with_prop p ''gridColumns'' (JNum 4)))
        \<lparr>past = [], present = DEFAULT_DESIGN, future = []\<rparr>
     = \<lparr>past = [DEFAULT_DESIGN], present = with_prop DEFAULT_DESIGN ''gridColumns'' (JNum 4),
        future = []\<rparr>"
  using setState_gate [of "with_prop DEFAULT_DESIGN ''gridColumns'' (JNum 3)"
          "Updater (\<lambda>p. with_prop p ''gridColumns'' (JNum 3))"
          "\<lparr>hist = \<lparr>past = [], present = DEFAULT_DESIGN, future = []\<rparr>,
            store = \<lparr>items = Map.empty, denied = False, full = False\<rparr>, saves = 1\<rparr>" STORAGE_KEY]
        setState_gate [of "with_prop DEFAULT_DESIGN ''gridColumns'' (JNum 4)"
          "Updater (\<lambda>p. with_prop p ''gridColumns'' (JNum 4))"
          "\<lparr>hist = \<lparr>past = [], present = DEFAULT_DESIGN, future = []\<rparr>,
            store = \<lparr>items = Map.empty, denied = False, full = False\<rparr>, saves = 1\<rparr>" STORAGE_KEY]
  by (simp add: resolve_def default_columns_same default_columns_changed default_safe)

text \<open>
  C1 as stated fails in both directions.  Two documents that differ (\<open>NaN\<close> against
  \<open>Infinity\<close> in \<open>baseFontSize\<close>) have the same text, so the \<open>set\<close> is dropped; and a
  document with the fields and values of the present one in another order has another
  text, so the \<open>set\<close> adds a history entry.
\<close>

theorem setState_gate_counterexample:
  "with_prop DEFAULT_DESIGN ''baseFontSize'' (JInfinity True)
      \<noteq> with_prop DEFAULT_DESIGN ''baseFontSize'' JNaN
   \<and> setState (Literal (with_prop DEFAULT_DESIGN ''baseFontSize'' (JInfinity True)))
        \<lparr>past = [], present = with_prop DEFAULT_DESIGN ''baseFontSize'' JNaN, future = []\<rparr>
      = \<lparr>past = [], present = with_prop DEFAULT_DESIGN ''baseFontSize'' JNaN, future = []\<rparr>
   \<and> set (own_props (JObj (rev (own_props DEFAULT_DESIGN)))) = set (own_props DEFAULT_DESIGN)
   \<and> setState (Literal (JObj (rev (own_props DEFAULT_DESIGN))))
        \<lparr>past = [], present = DEFAULT_DESIGN, future = []\<rparr>
      = \<lparr>past = [DEFAULT_DESIGN], present = JObj (rev (own_props DEFAULT_DESIGN)), future = []\<rparr>"
proof (intro conjI)
  show "with_prop DEFAULT_DESIGN ''baseFontSize'' (JInfinity True)
      \<noteq> with_prop DEFAULT_DESIGN ''baseFontSize'' JNaN"
    by (rule nan_inf_differ)
  show "setState (Literal (with_prop DEFAULT_DESIGN ''baseFontSize'' (JInfinity True)))
        \<lparr>past = [], present = with_prop DEFAULT_DESIGN ''baseFontSize'' JNaN, future = []\<rparr>
      = \<lparr>past = [], present = with_prop DEFAULT_DESIGN ''baseFontSize'' JNaN, future = []\<rparr>"
    by (simp add: setState_def resolve_def nan_inf_same_text)
  show "set (own_props (JObj (rev (own_props DEFAULT_DESIGN)))) = set (own_props DEFAULT_DESIGN)"
    by simp
  have "JSON_stringify (JObj (rev (own_props DEFAULT_DESIGN)))
      \<noteq> JSON_stringify (present \<lparr>past = [], present = DEFAULT_DESIGN, future = []\<rparr>)"
    by (simp only: history.select_convs reversed_text_differs not_False_eq_True)
  from set_push [OF this]
  show "setState (Literal (JObj (rev (own_props DEFAULT_DESIGN))))
        \<lparr>past = [], present = DEFAULT_DESIGN, future = []\<rparr>
      = \<lparr>past = [DEFAULT_DESIGN], present = JObj (rev (own_props DEFAULT_DESIGN)), future = []\<rparr>"
    by (simp only: history.select_convs append_Nil)
qed

section \<open>Undo and redo after a sequence of edits\<close>





section \<open>Loading the stored document\<close>
























end
